theory Spec2Isabelle
  imports Main "HOL-Library.Sublist"
begin

section \<open>refactor\_doc.py: rewriting the Inherits line of generated Markdown\<close>

text \<open>
  The script reads every \<^verbatim>\<open>.md\<close> file below a directory, rewrites the parenthesised
  paths of its \<^verbatim>\<open>**Inherits:**\<close> line with \<^verbatim>\<open>os.path.relpath\<close>, writes the file
  back and deletes it when it is a README or a SUMMARY.

  A Python \<^verbatim>\<open>str\<close> is modelled as a \<^typ>\<open>string\<close>; a \<^typ>\<open>char\<close> stands for a code
  point below 256. The functions of Python's library that the script calls
  (\<^verbatim>\<open>re.search\<close>, \<^verbatim>\<open>re.sub\<close>, \<^verbatim>\<open>str.strip\<close>, \<^verbatim>\<open>str.replace\<close>,
  \<^verbatim>\<open>str.lower\<close>, \<^verbatim>\<open>posixpath\<close>) are modelled by what they compute on such strings.
  The working directory, which \<^verbatim>\<open>os.path.abspath\<close> reads, is the parameter \<open>cwd\<close>;
  the file system is an explicit state.
\<close>

subsection \<open>Characters and strings of Python\<close>

definition NL :: char where
  "NL = CHR 0x0A"

text \<open>\<^verbatim>\<open>str.isspace\<close> on one character, which is also the class \<^verbatim>\<open>\s\<close> of \<^verbatim>\<open>re\<close>.\<close>

definition isspace :: "char \<Rightarrow> bool" where
  "isspace c =
     (let n = (of_char c :: nat)
      in (9 \<le> n \<and> n \<le> 13) \<or> (28 \<le> n \<and> n \<le> 32) \<or> n = 133 \<or> n = 160)"

text \<open>\<^verbatim>\<open>str.strip()\<close>: whitespace is removed at both ends.\<close>

definition strip :: "string \<Rightarrow> string" where
  "strip s = rev (dropWhile isspace (rev (dropWhile isspace s)))"

text \<open>\<^verbatim>\<open>str.lower()\<close>, one character at a time.\<close>

definition lower_char :: "char \<Rightarrow> char" where
  "lower_char c =
     (let n = (of_char c :: nat)
      in if (65 \<le> n \<and> n \<le> 90) \<or> (192 \<le> n \<and> n \<le> 222 \<and> n \<noteq> 215)
         then char_of (n + 32) else c)"

definition lower :: "string \<Rightarrow> string" where
  "lower s = map lower_char s"

text \<open>
  \<^verbatim>\<open>str.replace(old, new)\<close> without a count: every occurrence of \<open>old\<close> found scanning
  from the left is replaced, and the scan goes on behind the occurrence. An empty
  \<open>old\<close> matches before every character and at the end.
\<close>

fun replace_from :: "string \<Rightarrow> string \<Rightarrow> string \<Rightarrow> string" where
  "replace_from old new [] = []"
| "replace_from old new (c # cs) =
     (if old \<noteq> [] \<and> prefix old (c # cs)
      then new @ replace_from old new (drop (length old - 1) cs)
      else c # replace_from old new cs)"

definition str_replace :: "string \<Rightarrow> string \<Rightarrow> string \<Rightarrow> string" where
  "str_replace old new s =
     (if old = [] then new @ concat (map (\<lambda>c. c # new) s) else replace_from old new s)"

subsection \<open>posixpath\<close>

text \<open>\<^verbatim>\<open>str.split('/')\<close> and \<^verbatim>\<open>'/'.join\<close>.\<close>

fun split_sep :: "string \<Rightarrow> string list" where
  "split_sep [] = [[]]"
| "split_sep (c # cs) =
     (if c = CHR ''/'' then [] # split_sep cs
      else (case split_sep cs of [] \<Rightarrow> [[c]] | x # xs \<Rightarrow> (c # x) # xs))"

fun join_sep :: "string list \<Rightarrow> string" where
  "join_sep [] = []"
| "join_sep [x] = x"
| "join_sep (x # y # ys) = x @ CHR ''/'' # join_sep (y # ys)"

text \<open>\<^verbatim>\<open>posixpath.join(a, b)\<close>.\<close>

definition path_join :: "string \<Rightarrow> string \<Rightarrow> string" where
  "path_join a b =
     (if prefix ''/'' b then b
      else if a = [] \<or> suffix ''/'' a then a @ b
      else a @ ''/'' @ b)"

text \<open>\<^verbatim>\<open>posixpath.basename\<close>: what follows the last slash.\<close>

definition basename :: "string \<Rightarrow> string" where
  "basename p = rev (takeWhile (\<lambda>c. c \<noteq> CHR ''/'') (rev p))"

text \<open>
  \<^verbatim>\<open>posixpath.normpath\<close>. \<open>norm_step\<close> is the body of its loop over the components:
  \<open>k\<close> is \<^verbatim>\<open>initial_slashes\<close>, the list is \<^verbatim>\<open>new_comps\<close> and \<open>cmp\<close> is \<^verbatim>\<open>comp\<close>.
\<close>

definition initial_slashes :: "string \<Rightarrow> nat" where
  "initial_slashes path =
     (if prefix ''/'' path
      then (if prefix ''//'' path \<and> \<not> prefix ''///'' path then 2 else 1)
      else 0)"

definition norm_step :: "nat \<Rightarrow> string list \<Rightarrow> string \<Rightarrow> string list" where
  "norm_step k new_comps cmp =
     (if cmp = [] \<or> cmp = ''.'' then new_comps
      else if cmp \<noteq> ''..'' \<or> (k = 0 \<and> new_comps = [])
              \<or> (new_comps \<noteq> [] \<and> last new_comps = ''..'')
      then new_comps @ [cmp]
      else if new_comps \<noteq> [] then butlast new_comps
      else new_comps)"

definition normpath :: "string \<Rightarrow> string" where
  "normpath path =
     (if path = [] then ''.''
      else let k = initial_slashes path;
               comps = foldl (norm_step k) [] (split_sep path);
               p = replicate k (CHR ''/'') @ join_sep comps
           in if p = [] then ''.'' else p)"

text \<open>\<^verbatim>\<open>posixpath.abspath\<close>, with the working directory as a parameter.\<close>

definition abspath :: "string \<Rightarrow> string \<Rightarrow> string" where
  "abspath cwd path = normpath (if prefix ''/'' path then path else path_join cwd path)"

text \<open>\<^verbatim>\<open>genericpath.commonprefix\<close> of two lists: their longest common prefix.\<close>

fun commonprefix :: "'a list \<Rightarrow> 'a list \<Rightarrow> 'a list" where
  "commonprefix (x # xs) (y # ys) = (if x = y then x # commonprefix xs ys else [])"
| "commonprefix _ _ = []"

text \<open>
  \<^verbatim>\<open>posixpath.relpath(path, start)\<close>. Python raises \<^verbatim>\<open>ValueError\<close> for an empty
  \<open>path\<close>; the script only passes paths that begin with \<^verbatim>\<open>docs/docs/src\<close>.
\<close>

definition path_comps :: "string \<Rightarrow> string \<Rightarrow> string list" where
  "path_comps cwd p = filter (\<lambda>x. x \<noteq> []) (split_sep (abspath cwd p))"

definition relpath :: "string \<Rightarrow> string \<Rightarrow> string \<Rightarrow> string" where
  "relpath cwd path start =
     (let start_list = path_comps cwd start;
          path_list = path_comps cwd path;
          i = length (commonprefix start_list path_list);
          rel_list = replicate (length start_list - i) ''..'' @ drop i path_list
      in if rel_list = [] then ''.'' else join_sep rel_list)"

subsection \<open>parse\_inherits\<close>

definition marker :: string where
  "marker = ''**Inherits:**''"

text \<open>
  The pattern is \<^verbatim>\<open>\*\*Inherits:\*\*\s*([\s\S]*?)\n\<close>. \<open>lazy_group\<close> is its tail
  \<^verbatim>\<open>([\s\S]*?)\n\<close>: the group takes as few characters as possible, so it ends
  before the first line break; the result is the group. \<open>ws_group\<close> puts the greedy
  \<^verbatim>\<open>\s*\<close> in front: it takes one more whitespace character whenever the rest
  of the pattern still matches behind it, and gives the character back otherwise.
\<close>

fun lazy_group :: "string \<Rightarrow> string option" where
  "lazy_group [] = None"
| "lazy_group (c # cs) = (if c = NL then Some [] else map_option (Cons c) (lazy_group cs))"

fun ws_group :: "string \<Rightarrow> string option" where
  "ws_group [] = lazy_group []"
| "ws_group (c # cs) =
     (if isspace c
      then (case ws_group cs of Some g \<Rightarrow> Some g | None \<Rightarrow> lazy_group (c # cs))
      else lazy_group (c # cs))"

definition match_inherits :: "string \<Rightarrow> string option" where
  "match_inherits s =
     (if prefix marker s then ws_group (drop (length marker) s) else None)"

text \<open>\<^verbatim>\<open>re.search\<close>: the match at the leftmost position that has one; group 1 of it.\<close>

fun re_search_inherits :: "string \<Rightarrow> string option" where
  "re_search_inherits [] = match_inherits []"
| "re_search_inherits (c # cs) =
     (case match_inherits (c # cs) of
        Some g \<Rightarrow> Some g
      | None \<Rightarrow> re_search_inherits cs)"

definition parse_inherits :: "string \<Rightarrow> string option" where
  "parse_inherits md_content = map_option strip (re_search_inherits md_content)"

subsection \<open>replace\_paths\_with\_empty\_brackets\<close>

definition default_path :: string where
  "default_path = ''docs/docs/src''"

definition start :: string where
  "start = ''docs/docs/src/src/X/X/''"

text \<open>
  \<open>replace_path\<close> gets the text between the parentheses of a match
  (\<^verbatim>\<open>match.group(0)[1:-1]\<close>).
\<close>

definition replace_path :: "string \<Rightarrow> string \<Rightarrow> string" where
  "replace_path cwd inner =
     (let path = default_path @ inner;
          relative_path = relpath cwd path start
      in ''('' @ relative_path @ '')'')"

text \<open>
  The pattern \<^verbatim>\<open>\([^)]+\)\<close> at the beginning of a string: an opening parenthesis,
  the longest run of characters other than the closing one, which must not be empty,
  and the closing parenthesis. A shorter run ends before a character that is not a
  closing parenthesis, so backtracking finds nothing more. The result is the run and
  the text behind the match.
\<close>

definition ref_at :: "string \<Rightarrow> (string \<times> string) option" where
  "ref_at s =
     (case s of
        [] \<Rightarrow> None
      | c # t \<Rightarrow>
          if c = CHR ''(''
          then (let inner = takeWhile (\<lambda>x. x \<noteq> CHR '')'') t;
                    rest = dropWhile (\<lambda>x. x \<noteq> CHR '')'') t
                in if inner \<noteq> [] \<and> rest \<noteq> [] then Some (inner, tl rest) else None)
          else None)"

text \<open>
  \<^verbatim>\<open>re.sub(pattern, repl, line)\<close> with a function \<open>repl\<close>: the matches are found from
  left to right, the next one is looked for behind the previous one, each is replaced
  by what \<open>repl\<close> returns for it, and the text between the matches is copied.
\<close>

function re_sub_refs :: "(string \<Rightarrow> string) \<Rightarrow> string \<Rightarrow> string" where
  "re_sub_refs repl [] = []"
| "re_sub_refs repl (c # cs) =
     (case ref_at (c # cs) of
        Some (inner, rest) \<Rightarrow> repl inner @ re_sub_refs repl rest
      | None \<Rightarrow> c # re_sub_refs repl cs)"
  by pat_completeness auto
termination
proof (relation "measure (\<lambda>(repl, s). length s)")
  show "wf (measure (\<lambda>(repl, s). length s))" by simp
next
  fix repl :: "string \<Rightarrow> string" and c :: char and cs :: string and x2 inner rest
  assume "ref_at (c # cs) = Some x2" and "(inner, rest) = x2"
  then have "length rest \<le> length cs"
    using length_dropWhile_le [of "\<lambda>x. x \<noteq> CHR '')''" cs]
    by (auto simp: ref_at_def Let_def split: if_splits)
  then show "((repl, rest), (repl, c # cs)) \<in> measure (\<lambda>(repl, s). length s)" by simp
next
  fix repl :: "string \<Rightarrow> string" and c :: char and cs :: string
  show "((repl, cs), (repl, c # cs)) \<in> measure (\<lambda>(repl, s). length s)" by simp
qed

definition replace_paths_with_empty_brackets :: "string \<Rightarrow> string \<Rightarrow> string" where
  "replace_paths_with_empty_brackets cwd line = re_sub_refs (replace_path cwd) line"

subsection \<open>The text of a file\<close>

text \<open>
  Lines 28 to 34 of \<^verbatim>\<open>process_md_file\<close>, between reading and writing: the new value of
  \<^verbatim>\<open>md_content\<close>. \<^verbatim>\<open>if inherits:\<close> is false for \<^verbatim>\<open>None\<close> and for the empty string.
\<close>

definition rewrite_content :: "string \<Rightarrow> string \<Rightarrow> string" where
  "rewrite_content cwd md_content =
     (case parse_inherits md_content of
        None \<Rightarrow> md_content
      | Some inherits \<Rightarrow>
          if inherits \<noteq> []
          then (let modified_inherits = replace_paths_with_empty_brackets cwd inherits
                in str_replace inherits modified_inherits md_content)
          else md_content)"

subsection \<open>The file system\<close>

text \<open>
  A file has its text and three permissions: whether it may be read, whether it may
  be written, and whether the directory that holds it lets it be removed. The file
  system maps the path of every existing file to it and keeps a log of the writes and
  removals done. Opening a file that does not exist, or without the permission,
  raises an \<^verbatim>\<open>OSError\<close>, and so does removing it.
  The text of a file is what Python's text mode reads and writes: the decoded
  characters, with the line endings already translated. The bytes on the disk and
  the output of \<^verbatim>\<open>print\<close> are not part of the model.
\<close>

datatype error = FileNotFoundError | PermissionError

record fnode =
  content :: string
  readable :: bool
  writable :: bool
  unlinkable :: bool

datatype event = Wrote string string | Removed string

record world =
  files :: "string \<rightharpoonup> fnode"
  log :: "event list"

datatype outcome = Returned | Raised error

text \<open>\<^verbatim>\<open>open(file_path, 'r')\<close> and \<^verbatim>\<open>file.read()\<close>.\<close>

definition read_file :: "string \<Rightarrow> world \<Rightarrow> error + string" where
  "read_file file_path w =
     (case files w file_path of
        None \<Rightarrow> Inl FileNotFoundError
      | Some f \<Rightarrow> if readable f then Inr (content f) else Inl PermissionError)"

text \<open>\<^verbatim>\<open>open(file_path, 'w')\<close> and \<^verbatim>\<open>file.write(text)\<close>.\<close>

definition write_file :: "string \<Rightarrow> string \<Rightarrow> world \<Rightarrow> error + world" where
  "write_file file_path text w =
     (case files w file_path of
        None \<Rightarrow>
          Inr (w\<lparr>files := (files w)(file_path \<mapsto>
                       \<lparr>content = text, readable = True, writable = True, unlinkable = True\<rparr>),
                   log := log w @ [Wrote file_path text]\<rparr>)
      | Some f \<Rightarrow>
          if writable f
          then Inr (w\<lparr>files := (files w)(file_path \<mapsto> f\<lparr>content := text\<rparr>),
                       log := log w @ [Wrote file_path text]\<rparr>)
          else Inl PermissionError)"

text \<open>\<^verbatim>\<open>os.remove(file_path)\<close>.\<close>

definition os_remove :: "string \<Rightarrow> world \<Rightarrow> error + world" where
  "os_remove file_path w =
     (case files w file_path of
        None \<Rightarrow> Inl FileNotFoundError
      | Some f \<Rightarrow>
          if unlinkable f
          then Inr (w\<lparr>files := (files w)(file_path := None),
                       log := log w @ [Removed file_path]\<rparr>)
          else Inl PermissionError)"

subsection \<open>process\_md\_file and process\_all\_md\_files\<close>

text \<open>
  An exception ends the function where it is raised: the outcome is \<open>Raised\<close> and the
  file system is as the calls before it left it.
\<close>

definition process_md_file :: "string \<Rightarrow> string \<Rightarrow> world \<Rightarrow> outcome \<times> world" where
  "process_md_file cwd file_path w =
     (case read_file file_path w of
        Inl e \<Rightarrow> (Raised e, w)
      | Inr md_content \<Rightarrow>
          (case write_file file_path (rewrite_content cwd md_content) w of
             Inl e \<Rightarrow> (Raised e, w)
           | Inr w1 \<Rightarrow>
               let file_name = basename file_path
               in if lower file_name \<in> set [''readme.md'', ''summary.md'']
                  then (case os_remove file_path w1 of
                          Inl e \<Rightarrow> (Raised e, w1)
                        | Inr w2 \<Rightarrow> (Returned, w2))
                  else (Returned, w1)))"

text \<open>A \<^verbatim>\<open>for\<close> loop whose body may raise: the first exception ends the loop.\<close>

fun for_each :: "('a \<Rightarrow> world \<Rightarrow> outcome \<times> world) \<Rightarrow> 'a list \<Rightarrow> world \<Rightarrow> outcome \<times> world" where
  "for_each body [] w = (Returned, w)"
| "for_each body (x # xs) w =
     (case body x w of
        (Returned, w1) \<Rightarrow> for_each body xs w1
      | (Raised e, w1) \<Rightarrow> (Raised e, w1))"

text \<open>
  \<open>walk\<close> is what \<^verbatim>\<open>os.walk(directory)\<close> yields: for every directory below
  \<open>directory\<close> its path, the names of its subdirectories and the names of its files.
  The script creates no file and removes only files it has been given, so the
  directories listed later are as they were at the beginning.
\<close>

type_synonym walk = "(string \<times> string list \<times> string list) list"

definition process_all_md_files :: "string \<Rightarrow> walk \<Rightarrow> world \<Rightarrow> outcome \<times> world" where
  "process_all_md_files cwd walk w =
     for_each (\<lambda>(root, dirs, files_of_root).
         for_each (\<lambda>file.
             if suffix ''.md'' file
             then process_md_file cwd (path_join root file)
             else (\<lambda>w1. (Returned, w1)))
           files_of_root)
       walk w"

subsection \<open>Notions used in the statements\<close>

text \<open>The test of lines 43 and 44: the lowered base name is one of the two names.\<close>

definition deletion_rule :: "string \<Rightarrow> bool" where
  "deletion_rule file_path = (lower (basename file_path) \<in> set [''readme.md'', ''summary.md''])"

text \<open>
  The paths that the two loops of \<^verbatim>\<open>process_all_md_files\<close> hand to
  \<^verbatim>\<open>process_md_file\<close>, in their order.
\<close>

definition md_paths :: "walk \<Rightarrow> string list" where
  "md_paths walk =
     concat (map (\<lambda>(root, dirs, files_of_root).
       map (path_join root) (filter (suffix ''.md'') files_of_root)) walk)"

text \<open>
  What a successful \<^verbatim>\<open>process_md_file\<close> leaves of the file at a path, and the writes
  and removals it logs for it.
\<close>

definition processed :: "string \<Rightarrow> string \<Rightarrow> fnode option \<Rightarrow> fnode option" where
  "processed cwd file_path node =
     (if deletion_rule file_path then None
      else map_option (\<lambda>f. f\<lparr>content := rewrite_content cwd (content f)\<rparr>) node)"

definition events_of :: "string \<Rightarrow> world \<Rightarrow> string \<Rightarrow> event list" where
  "events_of cwd w file_path =
     (case files w file_path of
        None \<Rightarrow> []
      | Some f \<Rightarrow>
          Wrote file_path (rewrite_content cwd (content f))
            # (if deletion_rule file_path then [Removed file_path] else []))"

text \<open>
  No opening parenthesis stands behind the last closing one: at the end of such a text
  the scanner of \<^verbatim>\<open>re.sub\<close> is not inside a reference that a closing parenthesis
  further on could complete.
\<close>

definition no_open_paren :: "string \<Rightarrow> bool" where
  "no_open_paren s = (CHR ''('' \<notin> set (takeWhile (\<lambda>c. c \<noteq> CHR '')'') (rev s)))"

text \<open>Components as \<^verbatim>\<open>normpath\<close> keeps them: not empty and without a slash.\<close>

definition good_comps :: "string list \<Rightarrow> bool" where
  "good_comps cs = (\<forall>x \<in> set cs. x \<noteq> [] \<and> CHR ''/'' \<notin> set x)"

text \<open>The components of the normalised working directory.\<close>

definition cwd_comps :: "string \<Rightarrow> string list" where
  "cwd_comps cwd = foldl (norm_step (Suc 0)) [] (split_sep cwd)"

text \<open>A small tree of files, a walk over it, and a working directory.\<close>

definition notes_file :: fnode where
  "notes_file = \<lparr>content = ''# Notes'', readable = True, writable = True, unlinkable = True\<rparr>"

definition locked_file :: fnode where
  "locked_file = \<lparr>content = ''# Locked'', readable = True, writable = False, unlinkable = True\<rparr>"

definition summary_file :: fnode where
  "summary_file = \<lparr>content = ''# Summary'', readable = True, writable = True, unlinkable = True\<rparr>"

definition pinned_file :: fnode where
  "pinned_file = \<lparr>content = ''# Readme'', readable = True, writable = True, unlinkable = False\<rparr>"

definition child_file :: fnode where
  "child_file =
     \<lparr>content = ''**Inherits:** [B](/src/B.md)'' @ [NL],
      readable = True, writable = True, unlinkable = True\<rparr>"

definition docs_world :: world where
  "docs_world =
     \<lparr>files = [''docs/SUMMARY.md'' \<mapsto> summary_file, ''docs/summary.MD'' \<mapsto> summary_file,
               ''docs/a/child.md'' \<mapsto> child_file, ''docs/a/notes.md'' \<mapsto> notes_file,
               ''docs/a/locked.md'' \<mapsto> locked_file, ''docs/a/zeta.md'' \<mapsto> notes_file,
               ''docs/b/README.md'' \<mapsto> pinned_file],
      log = []\<rparr>"

definition docs_walk :: walk where
  "docs_walk =
     [(''docs'', [''a''], [''SUMMARY.md'', ''summary.MD'']),
      (''docs/a'', [], [''child.md'', ''notes.md'', ''locked.md'', ''zeta.md''])]"

text \<open>A walk that lists a file which is no longer there.\<close>

definition stale_walk :: walk where
  "stale_walk = [(''docs/c'', [], [''gone.md''])]"

definition top_walk :: walk where
  "top_walk = [(''docs'', [''a''], [''SUMMARY.md'', ''summary.MD''])]"

definition home :: string where
  "home = ''/repo/python_script''"

subsection \<open>The search for the Inherits line\<close>

lemma match_inherits_prefix: "match_inherits s = Some g \<Longrightarrow> prefix marker s"
  by (simp add: match_inherits_def split: if_splits)

lemma re_search_inherits_sublist: "re_search_inherits s = Some g \<Longrightarrow> sublist marker s"
proof (induction s)
  case Nil
  then show ?case by (auto dest: match_inherits_prefix)
next
  case (Cons c cs)
  show ?case
  proof (cases "match_inherits (c # cs)")
    case None
    with Cons have "sublist marker cs" by simp
    then show ?thesis by (simp add: sublist_Cons_right)
  next
    case (Some a)
    then have "prefix marker (c # cs)" by (rule match_inherits_prefix)
    then show ?thesis by (rule prefix_imp_sublist)
  qed
qed

lemma parse_inherits_None: "\<not> sublist marker md \<Longrightarrow> parse_inherits md = None"
  using re_search_inherits_sublist [of md] by (cases "re_search_inherits md") (auto simp: parse_inherits_def)

lemma rewrite_content_no_marker: "\<not> sublist marker md \<Longrightarrow> rewrite_content cwd md = md"
  by (simp add: rewrite_content_def parse_inherits_None)

lemma lazy_group_None: "NL \<notin> set s \<Longrightarrow> lazy_group s = None"
  by (induction s) auto

lemma ws_group_None: "NL \<notin> set s \<Longrightarrow> ws_group s = None"
  by (induction s) (auto simp: lazy_group_None)

lemma ws_group_blank:
  "list_all isspace ws \<Longrightarrow> NL \<notin> set tail \<Longrightarrow> ws_group (ws @ NL # tail) = Some []"
proof (induction ws)
  case Nil
  then show ?case by (simp add: ws_group_None)
next
  case (Cons c ws)
  then show ?case by simp
qed

lemma re_search_inherits_skip:
  "CHR ''*'' \<notin> set pre \<Longrightarrow> re_search_inherits (pre @ s) = re_search_inherits s"
proof (induction pre)
  case Nil
  then show ?case by simp
next
  case (Cons c pre)
  then have "match_inherits (c # pre @ s) = None"
    by (auto simp: match_inherits_def marker_def)
  with Cons show ?case by simp
qed

lemma re_search_inherits_marker:
  "ws_group s = Some g \<Longrightarrow> re_search_inherits (marker @ s) = Some g"
  by (simp add: marker_def match_inherits_def)

lemma parse_inherits_blank:
  assumes "CHR ''*'' \<notin> set pre" "list_all isspace ws" "NL \<notin> set tail"
  shows "parse_inherits (pre @ marker @ ws @ NL # tail) = Some []"
  using assms
  by (simp add: parse_inherits_def re_search_inherits_skip re_search_inherits_marker ws_group_blank strip_def)

subsection \<open>The scanner of the references\<close>

lemma ref_at_Some_iff:
  "ref_at s = Some (inner, rest) \<longleftrightarrow>
     s = CHR ''('' # inner @ CHR '')'' # rest \<and> inner \<noteq> [] \<and> CHR '')'' \<notin> set inner"
proof
  assume a: "ref_at s = Some (inner, rest)"
  then obtain t where s: "s = CHR ''('' # t" 
    by (cases s) (auto simp: ref_at_def split: if_splits)
  let ?P = "\<lambda>x. x \<noteq> CHR '')''"
  from a s have i: "inner = takeWhile ?P t" and ne: "inner \<noteq> []" and d: "dropWhile ?P t \<noteq> []"
    and r: "rest = tl (dropWhile ?P t)"
    by (auto simp: ref_at_def Let_def split: if_splits)
  from d have "hd (dropWhile ?P t) = CHR '')''" using hd_dropWhile [of ?P t] by auto
  with d r have "dropWhile ?P t = CHR '')'' # rest" by (cases "dropWhile ?P t") auto
  then have "t = inner @ CHR '')'' # rest" using takeWhile_dropWhile_id [of ?P t] i by simp
  moreover have "CHR '')'' \<notin> set inner" using i set_takeWhileD [of _ ?P t] by auto
  ultimately show "s = CHR ''('' # inner @ CHR '')'' # rest \<and> inner \<noteq> [] \<and> CHR '')'' \<notin> set inner"
    using s ne by simp
next
  assume "s = CHR ''('' # inner @ CHR '')'' # rest \<and> inner \<noteq> [] \<and> CHR '')'' \<notin> set inner"
  moreover from this have "\<And>x. x \<in> set inner \<Longrightarrow> x \<noteq> CHR '')''" by auto
  ultimately show "ref_at s = Some (inner, rest)"
    by (simp add: ref_at_def Let_def)
qed

lemma ref_at_not_paren: "c \<noteq> CHR ''('' \<Longrightarrow> ref_at (c # cs) = None"
  by (simp add: ref_at_def)

lemma ref_at_empty_pair: "ref_at (CHR ''('' # CHR '')'' # s) = None"
  by (simp add: ref_at_def)

lemma ref_at_append: "ref_at s = Some (inner, rest) \<Longrightarrow> ref_at (s @ t) = Some (inner, rest @ t)"
  by (simp add: ref_at_Some_iff)

lemma re_sub_refs_copy: "CHR ''('' \<notin> set pre \<Longrightarrow> re_sub_refs repl (pre @ s) = pre @ re_sub_refs repl s"
  by (induction pre) (auto simp: ref_at_not_paren)

lemma re_sub_refs_match:
  "inner \<noteq> [] \<Longrightarrow> CHR '')'' \<notin> set inner \<Longrightarrow>
   re_sub_refs repl (CHR ''('' # inner @ CHR '')'' # rest) = repl inner @ re_sub_refs repl rest"
  using ref_at_Some_iff [of "CHR ''('' # inner @ CHR '')'' # rest" inner rest] by simp

lemma takeWhile_stop: "\<not> P y \<Longrightarrow> takeWhile P (xs @ y # zs) = takeWhile P xs"
  by (induction xs) auto

lemma no_open_paren_rest:
  "no_open_paren (CHR ''('' # inner @ CHR '')'' # rest) = no_open_paren rest"
  by (simp add: no_open_paren_def takeWhile_stop)

lemma no_open_paren_tl: "no_open_paren (c # cs) \<Longrightarrow> no_open_paren cs"
proof -
  have "set (takeWhile P xs) \<subseteq> set (takeWhile P (xs @ ys))" for P and xs ys :: string
    by (induction xs) auto
  then show "no_open_paren (c # cs) \<Longrightarrow> no_open_paren cs"
    unfolding no_open_paren_def by auto
qed

lemma no_open_paren_all: "no_open_paren (CHR ''('' # cs) \<Longrightarrow> CHR '')'' \<in> set cs"
proof (rule ccontr)
  assume a: "no_open_paren (CHR ''('' # cs)" and "CHR '')'' \<notin> set cs"
  then have "takeWhile (\<lambda>c. c \<noteq> CHR '')'') (rev cs @ [CHR ''(''])  = rev cs @ [CHR ''('']"
    by auto
  with a show False by (simp add: no_open_paren_def)
qed

lemma re_sub_refs_append:
  "no_open_paren pre \<Longrightarrow> re_sub_refs repl (pre @ s) = re_sub_refs repl pre @ re_sub_refs repl s"
proof (induction repl pre rule: re_sub_refs.induct)
  case (1 repl)
  then show ?case by simp
next
  case (2 repl c cs)
  show ?case
  proof (cases "ref_at (c # cs)")
    case None
    have cs: "no_open_paren cs" using "2.prems" by (rule no_open_paren_tl)
    have "ref_at (c # cs @ s) = None"
    proof (cases "c = CHR ''(''")
      case True
      with "2.prems" have "CHR '')'' \<in> set cs" by (simp add: no_open_paren_all)
      then have d: "dropWhile (\<lambda>x. x \<noteq> CHR '')'') cs \<noteq> []" by auto
      with None True have "takeWhile (\<lambda>x. x \<noteq> CHR '')'') cs = []"
        by (auto simp: ref_at_def Let_def split: if_splits)
      then have "cs \<noteq> [] \<and> hd cs = CHR '')''" using d by (cases cs) (auto split: if_splits)
      then show ?thesis using True by (cases cs) (auto simp: ref_at_def)
    next
      case False
      then show ?thesis by (simp add: ref_at_not_paren)
    qed
    with None "2.IH"(1) cs show ?thesis by simp
  next
    case (Some a)
    obtain inner rest where a: "a = (inner, rest)" by (cases a)
    from Some a have s: "c # cs = CHR ''('' # inner @ CHR '')'' # rest" by (simp add: ref_at_Some_iff)
    have "no_open_paren rest" using "2.prems" s by (simp add: no_open_paren_rest)
    moreover have "ref_at (c # cs @ s) = Some (inner, rest @ s)"
      using ref_at_append [of "c # cs" inner rest s] Some a by simp
    ultimately show ?thesis using "2.IH"(2) [OF Some a [symmetric]] Some a by simp
  qed
qed

subsection \<open>Components of normalised paths\<close>

lemma split_sep_not_Nil: "split_sep s \<noteq> []"
  by (induction s) (auto split: list.splits)

lemma split_sep_append_sep: "split_sep (x @ CHR ''/'' # y) = split_sep x @ split_sep y"
proof (induction x)
  case Nil
  then show ?case by simp
next
  case (Cons c x)
  then show ?case using split_sep_not_Nil [of x]
    by (cases "split_sep x") auto
qed

lemma split_sep_no_slash: "x \<in> set (split_sep s) \<Longrightarrow> CHR ''/'' \<notin> set x"
proof (induction s arbitrary: x)
  case Nil
  then show ?case by simp
next
  case (Cons c s)
  then show ?case by (auto split: if_splits list.splits)
qed

lemma split_sep_single: "CHR ''/'' \<notin> set x \<Longrightarrow> split_sep x = [x]"
  by (induction x) auto

lemma filter_split_join:
  "good_comps cs \<Longrightarrow> filter (\<lambda>x. x \<noteq> []) (split_sep (join_sep cs)) = cs"
proof (induction cs rule: join_sep.induct)
  case 1
  then show ?case by simp
next
  case (2 x)
  then show ?case by (simp add: good_comps_def split_sep_single)
next
  case (3 x y ys)
  then show ?case by (simp add: good_comps_def split_sep_append_sep split_sep_single)
qed

lemma filter_split_slashes:
  "filter (\<lambda>x. x \<noteq> []) (split_sep (replicate k (CHR ''/'') @ s)) = filter (\<lambda>x. x \<noteq> []) (split_sep s)"
  by (induction k) auto

lemma norm_step_good:
  "good_comps acc \<Longrightarrow> CHR ''/'' \<notin> set c \<Longrightarrow> good_comps (norm_step k acc c)"
  by (auto simp: good_comps_def norm_step_def dest: in_set_butlastD)

lemma foldl_norm_step_good:
  "good_comps acc \<Longrightarrow> \<forall>c \<in> set cs. CHR ''/'' \<notin> set c \<Longrightarrow> good_comps (foldl (norm_step k) acc cs)"
  by (induction cs arbitrary: acc) (auto simp: norm_step_good)

lemma norm_step_abs: "0 < k \<Longrightarrow> norm_step k = norm_step (Suc 0)"
  by (auto simp: norm_step_def fun_eq_iff)

lemma comps_normpath:
  assumes "prefix ''/'' p"
  shows "filter (\<lambda>x. x \<noteq> []) (split_sep (normpath p)) = foldl (norm_step (Suc 0)) [] (split_sep p)"
proof -
  have k: "0 < initial_slashes p" using assms by (simp add: initial_slashes_def)
  have ne: "p \<noteq> []" using assms by auto
  have good: "good_comps (foldl (norm_step (Suc 0)) [] (split_sep p))"
    by (rule foldl_norm_step_good) (auto simp: good_comps_def dest: split_sep_no_slash)
  from k ne show ?thesis
    by (simp add: normpath_def Let_def norm_step_abs [OF k] filter_split_slashes filter_split_join [OF good])
qed

lemma norm_step_Nil: "norm_step k acc [] = acc"
  by (simp add: norm_step_def)

lemma path_comps_relative:
  assumes "prefix ''/'' cwd" and "\<not> prefix ''/'' p"
  shows "path_comps cwd p = foldl (norm_step (Suc 0)) (cwd_comps cwd) (split_sep p)"
proof -
  have abs: "prefix ''/'' (path_join cwd p)"
    using assms by (auto simp: path_join_def prefix_def)
  have "foldl (norm_step (Suc 0)) [] (split_sep (path_join cwd p)) =
        foldl (norm_step (Suc 0)) (cwd_comps cwd) (split_sep p)"
  proof (cases "suffix ''/'' cwd")
    case True
    then obtain c where c: "cwd = c @ ''/''" by (auto simp: suffix_def)
    then show ?thesis using assms
      by (simp add: path_join_def cwd_comps_def split_sep_append_sep norm_step_Nil)
  next
    case False
    then show ?thesis using assms
      by (auto simp: path_join_def cwd_comps_def split_sep_append_sep)
  qed
  then show ?thesis using assms abs
    by (simp add: path_comps_def abspath_def comps_normpath)
qed

lemma commonprefix_append: "commonprefix (b @ xs) (b @ ys) = b @ commonprefix xs ys"
  by (induction b) auto

lemma start_comps:
  "prefix ''/'' cwd \<Longrightarrow>
   path_comps cwd start = cwd_comps cwd @ [''docs'', ''docs'', ''src'', ''src'', ''X'', ''X'']"
  by (simp add: path_comps_relative start_def norm_step_def)

lemma once_comps:
  "prefix ''/'' cwd \<Longrightarrow>
   path_comps cwd (default_path @ ''/a'') = cwd_comps cwd @ [''docs'', ''docs'', ''src'', ''a'']"
  by (simp add: path_comps_relative default_path_def norm_step_def butlast_append)

lemma twice_comps:
  "prefix ''/'' cwd \<Longrightarrow>
   path_comps cwd (default_path @ ''../../../a'') = cwd_comps cwd @ [''docs'', ''a'']"
  by (simp add: path_comps_relative default_path_def norm_step_def butlast_append)

lemma relpath_once:
  "prefix ''/'' cwd \<Longrightarrow> relpath cwd (default_path @ ''/a'') start = ''../../../a''"
  by (simp add: relpath_def start_comps once_comps commonprefix_append Let_def numeral_eq_Suc)

lemma relpath_twice:
  "prefix ''/'' cwd \<Longrightarrow> relpath cwd (default_path @ ''../../../a'') start = ''../../../../../a''"
  by (simp add: relpath_def start_comps twice_comps commonprefix_append Let_def numeral_eq_Suc)

lemma rewrite_once:
  "prefix ''/'' cwd \<Longrightarrow>
   rewrite_content cwd (''**Inherits:** (/a)'' @ [NL]) = ''**Inherits:** (../../../a)'' @ [NL]"
  by (simp add: rewrite_content_def parse_inherits_def match_inherits_def marker_def NL_def
      isspace_def strip_def replace_paths_with_empty_brackets_def ref_at_def str_replace_def
      replace_path_def relpath_once)

lemma rewrite_twice:
  "prefix ''/'' cwd \<Longrightarrow>
   rewrite_content cwd (''**Inherits:** (../../../a)'' @ [NL]) = ''**Inherits:** (../../../../../a)'' @ [NL]"
  by (simp add: rewrite_content_def parse_inherits_def match_inherits_def marker_def NL_def
      isspace_def strip_def replace_paths_with_empty_brackets_def ref_at_def str_replace_def
      replace_path_def relpath_twice)

lemma path_comps_double_slash:
  assumes "prefix ''/'' cwd"
  shows "path_comps cwd (default_path @ ''/'' @ CHR ''/'' # q) = path_comps cwd (default_path @ CHR ''/'' # q)"
proof -
  have "\<not> prefix ''/'' (default_path @ s)" for s by (simp add: default_path_def)
  then show ?thesis using assms
    by (simp add: path_comps_relative split_sep_append_sep norm_step_Nil)
qed

subsection \<open>Processing files\<close>

lemma for_each_append:
  "for_each body (xs @ ys) w =
     (case for_each body xs w of
        (Returned, w1) \<Rightarrow> for_each body ys w1
      | (Raised e, w1) \<Rightarrow> (Raised e, w1))"
  by (induction xs arbitrary: w) (auto split: prod.splits outcome.splits)

lemma for_each_files:
  "for_each (\<lambda>file. if suffix ''.md'' file then process_md_file cwd (path_join root file)
                      else (\<lambda>w1. (Returned, w1))) fs w =
   for_each (process_md_file cwd) (map (path_join root) (filter (suffix ''.md'') fs)) w"
  by (induction fs arbitrary: w) (auto split: prod.splits outcome.splits)

lemma process_all_md_files_paths:
  "process_all_md_files cwd walk w = for_each (process_md_file cwd) (md_paths walk) w"
proof -
  let ?body = "\<lambda>(root, dirs, files_of_root).
         for_each (\<lambda>file.
             if suffix ''.md'' file
             then process_md_file cwd (path_join root file)
             else (\<lambda>w1. (Returned, w1)))
           files_of_root"
  have "for_each ?body walk w = for_each (process_md_file cwd) (md_paths walk) w"
  proof (induction walk arbitrary: w)
    case Nil
    then show ?case by (simp add: md_paths_def)
  next
    case (Cons t walk)
    obtain root dirs fs where t: "t = (root, dirs, fs)" by (cases t)
    have "md_paths (t # walk) = map (path_join root) (filter (suffix ''.md'') fs) @ md_paths walk"
      by (simp add: md_paths_def t)
    then show ?case using Cons
      by (simp add: t for_each_append for_each_files split: prod.splits outcome.splits)
  qed
  then show ?thesis by (simp add: process_all_md_files_def)
qed

lemma process_md_file_other:
  "process_md_file cwd p w = (r, w') \<Longrightarrow> q \<noteq> p \<Longrightarrow> files w' q = files w q"
  by (auto simp: process_md_file_def read_file_def write_file_def os_remove_def Let_def
      split: option.splits if_splits sum.splits)

lemma process_md_file_absent:
  "files w p = None \<Longrightarrow> process_md_file cwd p w = (Raised FileNotFoundError, w)"
  by (simp add: process_md_file_def read_file_def)

lemma process_md_file_Returned:
  assumes "process_md_file cwd p w = (Returned, w')"
  shows "\<exists>f. files w p = Some f \<and> readable f \<and> writable f \<and>
     files w' = (if deletion_rule p then (files w)(p := None)
                 else (files w)(p \<mapsto> f\<lparr>content := rewrite_content cwd (content f)\<rparr>))"
  using assms
  by (auto simp: process_md_file_def read_file_def write_file_def os_remove_def Let_def deletion_rule_def
      split: option.splits if_splits sum.splits)

lemma for_each_other:
  "for_each (process_md_file cwd) ps w = (r, w') \<Longrightarrow> q \<notin> set ps \<Longrightarrow> files w' q = files w q"
proof (induction ps arbitrary: w)
  case Nil
  then show ?case by simp
next
  case (Cons p ps)
  obtain r1 w1 where p: "process_md_file cwd p w = (r1, w1)" by (cases "process_md_file cwd p w")
  have q: "files w1 q = files w q" using process_md_file_other [OF p] Cons.prems(2) by simp
  show ?case
  proof (cases r1)
    case Returned
    with Cons.prems p have "for_each (process_md_file cwd) ps w1 = (r, w')" by simp
    then have "files w' q = files w1 q" using Cons.IH Cons.prems(2) by simp
    with q show ?thesis by simp
  next
    case (Raised e)
    with Cons.prems p have "w' = w1" by simp
    with q show ?thesis by simp
  qed
qed

lemma for_each_absent_stays:
  "for_each (process_md_file cwd) ps w = (Returned, w') \<Longrightarrow> files w p = None \<Longrightarrow> files w' p = None"
proof (induction ps arbitrary: w)
  case Nil
  then show ?case by simp
next
  case (Cons q ps)
  obtain r1 w1 where q: "process_md_file cwd q w = (r1, w1)" by (cases "process_md_file cwd q w")
  with Cons.prems have r1: "r1 = Returned" by (cases r1) auto
  have "q \<noteq> p" using process_md_file_absent [OF Cons.prems(2), of cwd] q r1 by auto
  then have "files w1 p = None" using process_md_file_other [OF q, of p] Cons.prems(2) by simp
  moreover have "for_each (process_md_file cwd) ps w1 = (Returned, w')" using Cons.prems q r1 by simp
  ultimately show ?case using Cons.IH by simp
qed

lemma for_each_deleted:
  "for_each (process_md_file cwd) ps w = (Returned, w') \<Longrightarrow> p \<in> set ps \<Longrightarrow> deletion_rule p
   \<Longrightarrow> files w' p = None"
proof (induction ps arbitrary: w)
  case Nil
  then show ?case by simp
next
  case (Cons q ps)
  obtain r1 w1 where q: "process_md_file cwd q w = (r1, w1)" by (cases "process_md_file cwd q w")
  with Cons.prems have r1: "r1 = Returned" by (cases r1) auto
  have rest: "for_each (process_md_file cwd) ps w1 = (Returned, w')" using Cons.prems q r1 by simp
  show ?case
  proof (cases "q = p")
    case True
    have "files w1 p = None"
      using process_md_file_Returned [of cwd p w w1] q r1 True Cons.prems(3) by auto
    then show ?thesis using for_each_absent_stays [OF rest] by simp
  next
    case False
    with Cons.prems have "p \<in> set ps" by simp
    then show ?thesis using Cons.IH [OF rest] Cons.prems(3) by simp
  qed
qed

text \<open>
  The three calls of \<^verbatim>\<open>process_md_file\<close> that can raise, and what a run over
  files that can all be processed leaves.
\<close>

lemma process_md_file_read_fails:
  "read_file p w = Inl e \<Longrightarrow> process_md_file cwd p w = (Raised e, w)"
  by (simp add: process_md_file_def)

lemma process_md_file_write_fails:
  "read_file p w = Inr t \<Longrightarrow> write_file p (rewrite_content cwd t) w = Inl e \<Longrightarrow>
   process_md_file cwd p w = (Raised e, w)"
  by (simp add: process_md_file_def)

lemma process_md_file_remove_fails:
  "read_file p w = Inr t \<Longrightarrow> write_file p (rewrite_content cwd t) w = Inr w1 \<Longrightarrow>
   deletion_rule p \<Longrightarrow> os_remove p w1 = Inl e \<Longrightarrow>
   process_md_file cwd p w = (Raised e, w1)"
  by (simp add: process_md_file_def deletion_rule_def)

lemma read_file_cong: "files w1 p = files w p \<Longrightarrow> read_file p w1 = read_file p w"
  by (simp add: read_file_def)

lemma write_file_fails_cong:
  "files w1 p = files w p \<Longrightarrow> write_file p t w = Inl e \<Longrightarrow> write_file p t w1 = Inl e"
  by (auto simp: write_file_def split: option.splits if_splits)

lemma events_of_cong: "files w1 q = files w q \<Longrightarrow> events_of cwd w1 q = events_of cwd w q"
  by (simp add: events_of_def)

lemma process_md_file_succeeds:
  assumes "files w p = Some f" and "readable f" and "writable f"
    and "deletion_rule p \<longrightarrow> unlinkable f"
  shows "\<exists>w1. process_md_file cwd p w = (Returned, w1)
           \<and> files w1 = (files w)(p := processed cwd p (files w p))
           \<and> log w1 = log w @ events_of cwd w p"
  using assms
  by (auto simp: process_md_file_def read_file_def write_file_def os_remove_def Let_def
      deletion_rule_def processed_def events_of_def)

lemma for_each_processed:
  assumes "distinct qs"
    and "\<forall>q\<in>set qs. \<exists>f. files w q = Some f \<and> readable f \<and> writable f
           \<and> (deletion_rule q \<longrightarrow> unlinkable f)"
  shows "\<exists>w1. for_each (process_md_file cwd) qs w = (Returned, w1)
           \<and> files w1 = (\<lambda>q. if q \<in> set qs then processed cwd q (files w q) else files w q)
           \<and> log w1 = log w @ concat (map (events_of cwd w) qs)"
  using assms
proof (induction qs arbitrary: w)
  case Nil
  then show ?case by simp
next
  case (Cons q qs)
  have dq: "distinct qs" and nq: "q \<notin> set qs" using Cons.prems(1) by simp_all
  from Cons.prems(2) obtain f where f: "files w q = Some f" "readable f" "writable f"
      "deletion_rule q \<longrightarrow> unlinkable f" by auto
  from process_md_file_succeeds [OF f, of cwd] obtain w' where
      p: "process_md_file cwd q w = (Returned, w')"
      and fw: "files w' = (files w)(q := processed cwd q (files w q))"
      and lw: "log w' = log w @ events_of cwd w q" by blast
  have same: "files w' r = files w r" if "r \<in> set qs" for r
  proof -
    from that nq have "r \<noteq> q" by blast
    then show ?thesis by (simp add: fw)
  qed
  have ok: "\<forall>r\<in>set qs. \<exists>f. files w' r = Some f \<and> readable f \<and> writable f
           \<and> (deletion_rule r \<longrightarrow> unlinkable f)"
  proof
    fix r assume r: "r \<in> set qs"
    then have "\<exists>f. files w r = Some f \<and> readable f \<and> writable f
           \<and> (deletion_rule r \<longrightarrow> unlinkable f)" using Cons.prems(2) by simp
    then show "\<exists>f. files w' r = Some f \<and> readable f \<and> writable f
           \<and> (deletion_rule r \<longrightarrow> unlinkable f)" by (simp only: same [OF r])
  qed
  from Cons.IH [OF dq ok] obtain w1 where
      r: "for_each (process_md_file cwd) qs w' = (Returned, w1)"
      and f1: "files w1 = (\<lambda>r. if r \<in> set qs then processed cwd r (files w' r) else files w' r)"
      and l1: "log w1 = log w' @ concat (map (events_of cwd w') qs)"
    by blast
  have ev: "map (events_of cwd w') qs = map (events_of cwd w) qs"
    by (rule map_cong [OF refl]) (rule events_of_cong, rule same)
  have "files w1 r = (if r \<in> set (q # qs) then processed cwd r (files w r) else files w r)" for r
  proof (cases "r = q")
    case True
    then have "files w1 r = files w' q" using nq by (simp add: f1)
    then show ?thesis using True by (simp add: fw)
  next
    case False
    show ?thesis
    proof (cases "r \<in> set qs")
      case True
      then have "files w1 r = processed cwd r (files w' r)" by (simp add: f1)
      then show ?thesis using True by (simp add: same)
    next
      case notin: False
      then have "files w1 r = files w' r" by (simp add: f1)
      then show ?thesis using False notin by (simp add: fw)
    qed
  qed
  then have "files w1 = (\<lambda>r. if r \<in> set (q # qs) then processed cwd r (files w r) else files w r)"
    by (rule ext)
  moreover have "log w1 = log w @ concat (map (events_of cwd w) (q # qs))"
    by (simp add: l1 lw ev)
  moreover have "for_each (process_md_file cwd) (q # qs) w = (Returned, w1)"
    by (simp add: p r)
  ultimately show ?case by blast
qed

section \<open>The claims\<close>

subsection \<open>C1: the rewritten reference\<close>

text \<open>
  Claim C1 says that a well-formed reference \<^verbatim>\<open>(p)\<close>, the only one of the field, is
  rewritten to the path of \<^verbatim>\<open>docs/docs/src/p\<close> relative to \<^verbatim>\<open>docs/docs/src/src/X/X/\<close>,
  in parentheses. Line 16 joins \<^verbatim>\<open>docs/docs/src\<close> and \<open>p\<close> with no slash between
  them. What holds: the reference is rewritten to the path of the concatenation
  \<^verbatim>\<open>docs/docs/src\<close> followed by \<open>p\<close>, relative to the anchor, and the text around it
  is copied; when \<open>p\<close> begins with a slash, as the paths of the generated files do, this
  is the path the claim names.
\<close>

theorem single_reference_rewritten:
  assumes "CHR ''('' \<notin> set pre" and "p \<noteq> []" and "CHR '')'' \<notin> set p" and "CHR ''('' \<notin> set post"
  shows "replace_paths_with_empty_brackets cwd (pre @ ''('' @ p @ '')'' @ post) =
           pre @ ''('' @ relpath cwd (default_path @ p) start @ '')'' @ post
       \<and> (prefix ''/'' cwd \<and> prefix ''/'' p \<longrightarrow>
            relpath cwd (default_path @ p) start = relpath cwd (default_path @ ''/'' @ p) start)"
proof
  let ?R = "replace_path cwd"
  have rp: "?R p = ''('' @ relpath cwd (default_path @ p) start @ '')''"
    by (simp add: replace_path_def)
  have "re_sub_refs ?R (pre @ CHR ''('' # p @ CHR '')'' # post) =
        pre @ re_sub_refs ?R (CHR ''('' # p @ CHR '')'' # post)"
    using assms(1) by (rule re_sub_refs_copy)
  also have "re_sub_refs ?R (CHR ''('' # p @ CHR '')'' # post) = ?R p @ re_sub_refs ?R post"
    using assms(2,3) by (rule re_sub_refs_match)
  also have "re_sub_refs ?R post = post"
    using re_sub_refs_copy [of post ?R "[]"] assms(4) by simp
  finally show "replace_paths_with_empty_brackets cwd (pre @ ''('' @ p @ '')'' @ post) =
           pre @ ''('' @ relpath cwd (default_path @ p) start @ '')'' @ post"
    by (simp add: replace_paths_with_empty_brackets_def rp)
next
  show "prefix ''/'' cwd \<and> prefix ''/'' p \<longrightarrow>
            relpath cwd (default_path @ p) start = relpath cwd (default_path @ ''/'' @ p) start"
  proof
    assume a: "prefix ''/'' cwd \<and> prefix ''/'' p"
    then obtain q where "p = CHR ''/'' # q" by (auto simp: prefix_def)
    then show "relpath cwd (default_path @ p) start = relpath cwd (default_path @ ''/'' @ p) start"
      using a path_comps_double_slash [of cwd q] by (simp add: relpath_def)
  qed
qed

theorem single_reference_rewritten_witness:
  "replace_paths_with_empty_brackets home (''[Foo]'' @ ''('' @ ''/src/Foo.md'' @ '')'' @ '', IBar'') =
     ''[Foo]'' @ ''('' @ relpath home (default_path @ ''/src/Foo.md'') start @ '')'' @ '', IBar''
   \<and> relpath home (default_path @ ''/src/Foo.md'') start =
       relpath home (default_path @ ''/'' @ ''/src/Foo.md'') start
   \<and> relpath home (default_path @ ''/src/Foo.md'') start = ''../../Foo.md''"
proof -
  have "relpath home (default_path @ ''/src/Foo.md'') start = ''../../Foo.md''" by code_simp
  then show ?thesis
    using single_reference_rewritten [of "''[Foo]''" "''/src/Foo.md''" "'', IBar''" home]
    by (simp add: home_def)
qed

text \<open>
  For the reference \<^verbatim>\<open>(../a/b.md)\<close> of the spec's scenario the script writes
  \<^verbatim>\<open>(../../../../src../a/b.md)\<close>, and the path of \<^verbatim>\<open>docs/docs/src/../a/b.md\<close>
  relative to the anchor is \<^verbatim>\<open>../../../../a/b.md\<close>.
\<close>

theorem single_reference_slash_counterexample:
  "replace_paths_with_empty_brackets home ''(../a/b.md)'' = ''(../../../../src../a/b.md)''
   \<and> ''('' @ relpath home (''docs/docs/src/'' @ ''../a/b.md'') start @ '')'' = ''(../../../../a/b.md)''"
  by code_simp

subsection \<open>C2: README and SUMMARY files are removed\<close>

text \<open>
  Claim C2 says that after a batch run every file under the root whose base name is,
  without regard to case, \<^verbatim>\<open>readme.md\<close> or \<^verbatim>\<open>summary.md\<close> is gone, \<^verbatim>\<open>summary.MD\<close>
  included. The walker of line 52 only takes names that end with \<^verbatim>\<open>.md\<close> in lower
  case. What holds: after a run that returns, every file that the walk lists, whose
  name ends with \<^verbatim>\<open>.md\<close> and whose lowered base name is \<^verbatim>\<open>readme.md\<close> or
  \<^verbatim>\<open>summary.md\<close>, no longer exists.
\<close>

theorem walked_readme_summary_removed:
  assumes "process_all_md_files cwd walk w = (Returned, w')"
    and "(root, dirs, fs) \<in> set walk" and "file \<in> set fs" and "suffix ''.md'' file"
    and "deletion_rule (path_join root file)"
  shows "files w' (path_join root file) = None"
proof -
  have "path_join root file \<in> set (md_paths walk)"
    using assms(2-4) by (force simp: md_paths_def)
  then show ?thesis
    using assms(1,5) by (simp add: process_all_md_files_paths for_each_deleted)
qed

theorem walked_readme_summary_removed_witness:
  "files (snd (process_all_md_files home top_walk docs_world)) (path_join ''docs'' ''SUMMARY.md'') = None"
proof -
  have "fst (process_all_md_files home top_walk docs_world) = Returned" by code_simp
  then have r: "process_all_md_files home top_walk docs_world =
      (Returned, snd (process_all_md_files home top_walk docs_world))"
    by (simp add: prod_eq_iff)
  have d: "deletion_rule (path_join ''docs'' ''SUMMARY.md'')" by code_simp
  have s: "suffix ''.md'' ''SUMMARY.md''" by code_simp
  show ?thesis
    by (rule walked_readme_summary_removed [OF r _ _ s d, of "[''a'']" "[''SUMMARY.md'', ''summary.MD'']"])
      (simp_all add: top_walk_def)
qed

text \<open>
  The file \<^verbatim>\<open>docs/summary.MD\<close> has the lowered base name \<^verbatim>\<open>summary.md\<close>, the run
  returns, and the file is still there.
\<close>

theorem upper_case_extension_counterexample:
  "lower (basename ''docs/summary.MD'') = ''summary.md''
   \<and> fst (process_all_md_files home top_walk docs_world) = Returned
   \<and> files (snd (process_all_md_files home top_walk docs_world)) ''docs/summary.MD'' = Some summary_file"
  by code_simp

subsection \<open>C3: later occurrences of the value\<close>

text \<open>
  Claim C3 says that only the first occurrence of the captured value in the document is
  replaced and that later occurrences stay as they are. Line 34 replaces the value
  wherever it occurs: here it stands in the Inherits line and again in the next
  line, and the next line is rewritten as well.
\<close>

theorem later_occurrence_rewritten:
  "rewrite_content home (''**Inherits:** (/a)'' @ NL # ''(/a)'' @ [NL]) =
     ''**Inherits:** (../../../a)'' @ NL # ''(../../../a)'' @ [NL]"
  by code_simp

subsection \<open>C4: a document without the marker\<close>

text \<open>
  Claim C4: for a text that does not contain the marker \<^verbatim>\<open>**Inherits:**\<close> the result
  of the transform is the text itself, and whether the file is deleted depends on its
  name only. Processing a readable and writable file with such a text leaves the file
  system as it was unless the name meets the deletion rule; if it does, the file is
  removed, or, where the directory does not let it be removed, the removal raises and
  the file is still there.
\<close>

theorem no_marker_unchanged:
  assumes "\<not> sublist marker md"
  shows "rewrite_content cwd md = md
       \<and> (files w p = Some f \<and> content f = md \<and> readable f \<and> writable f \<longrightarrow>
            fst (process_md_file cwd p w) =
              (if deletion_rule p \<and> \<not> unlinkable f then Raised PermissionError else Returned)
          \<and> files (snd (process_md_file cwd p w)) =
              (if deletion_rule p \<and> unlinkable f then (files w)(p := None) else files w))"
proof
  show t: "rewrite_content cwd md = md" using assms by (rule rewrite_content_no_marker)
  show "files w p = Some f \<and> content f = md \<and> readable f \<and> writable f \<longrightarrow>
            fst (process_md_file cwd p w) =
              (if deletion_rule p \<and> \<not> unlinkable f then Raised PermissionError else Returned)
          \<and> files (snd (process_md_file cwd p w)) =
              (if deletion_rule p \<and> unlinkable f then (files w)(p := None) else files w)"
    using t
    by (auto simp: process_md_file_def read_file_def write_file_def os_remove_def Let_def
        deletion_rule_def fun_upd_idem)
qed

theorem no_marker_unchanged_witness:
  "rewrite_content home ''# Notes'' = ''# Notes''
   \<and> fst (process_md_file home ''docs/a/notes.md'' docs_world) = Returned
   \<and> files (snd (process_md_file home ''docs/a/notes.md'' docs_world)) = files docs_world
   \<and> fst (process_md_file home ''docs/SUMMARY.md'' docs_world) = Returned
   \<and> files (snd (process_md_file home ''docs/SUMMARY.md'' docs_world)) =
       (files docs_world)(''docs/SUMMARY.md'' := None)
   \<and> fst (process_md_file home ''docs/b/README.md'' docs_world) = Raised PermissionError
   \<and> files (snd (process_md_file home ''docs/b/README.md'' docs_world)) = files docs_world"
proof -
  have m: "\<not> sublist marker ''# Notes''" and s: "\<not> sublist marker ''# Summary''"
    and r: "\<not> sublist marker ''# Readme''" by code_simp+
  have d1: "\<not> deletion_rule ''docs/a/notes.md''" and d2: "deletion_rule ''docs/SUMMARY.md''"
    and d3: "deletion_rule ''docs/b/README.md''" by code_simp+
  have f1: "files docs_world ''docs/a/notes.md'' = Some notes_file"
    and f2: "files docs_world ''docs/SUMMARY.md'' = Some summary_file"
    and f3: "files docs_world ''docs/b/README.md'' = Some pinned_file" by code_simp+
  show ?thesis
    using no_marker_unchanged [OF m, of home docs_world "''docs/a/notes.md''" notes_file]
      no_marker_unchanged [OF s, of home docs_world "''docs/SUMMARY.md''" summary_file]
      no_marker_unchanged [OF r, of home docs_world "''docs/b/README.md''" pinned_file]
      d1 d2 d3 f1 f2 f3
    by (simp add: notes_file_def summary_file_def pinned_file_def)
qed

subsection \<open>C5: the transform is not idempotent\<close>

text \<open>
  Claim C5: there is a document on which the transform applied twice differs from the
  transform applied once, because the base path is put in front of a path that is
  already relative. For every absolute working directory the document
  \<^verbatim>\<open>**Inherits:** (/a)\<close> becomes \<^verbatim>\<open>**Inherits:** (../../../a)\<close>, and this one becomes
  \<^verbatim>\<open>**Inherits:** (../../../../../a)\<close>.
\<close>

theorem rewrite_content_not_idempotent:
  assumes "prefix ''/'' cwd"
  shows "rewrite_content cwd (''**Inherits:** (/a)'' @ [NL]) = ''**Inherits:** (../../../a)'' @ [NL]
       \<and> rewrite_content cwd (''**Inherits:** (../../../a)'' @ [NL]) =
           ''**Inherits:** (../../../../../a)'' @ [NL]
       \<and> rewrite_content cwd (rewrite_content cwd (''**Inherits:** (/a)'' @ [NL])) \<noteq>
           rewrite_content cwd (''**Inherits:** (/a)'' @ [NL])"
proof -
  have once: "rewrite_content cwd (''**Inherits:** (/a)'' @ [NL]) = ''**Inherits:** (../../../a)'' @ [NL]"
    using assms by (rule rewrite_once)
  have twice: "rewrite_content cwd (''**Inherits:** (../../../a)'' @ [NL]) =
      ''**Inherits:** (../../../../../a)'' @ [NL]"
    using assms by (rule rewrite_twice)
  have "rewrite_content cwd (rewrite_content cwd (''**Inherits:** (/a)'' @ [NL])) \<noteq>
      rewrite_content cwd (''**Inherits:** (/a)'' @ [NL])"
    unfolding once twice by simp
  with once twice show ?thesis by blast
qed

theorem rewrite_content_not_idempotent_witness:
  "rewrite_content home (rewrite_content home (''**Inherits:** (/a)'' @ [NL])) \<noteq>
     rewrite_content home (''**Inherits:** (/a)'' @ [NL])"
proof -
  have "prefix ''/'' home" by (simp add: home_def)
  then show ?thesis using rewrite_content_not_idempotent [of home] by blast
qed

subsection \<open>C6: text outside the field\<close>

text \<open>
  Claim C6 says that the content outside the labeled field is left as it is. The value
  of the field is replaced wherever it occurs in the document, so a line outside the
  field that holds the same text is rewritten as well: here the second line.
\<close>

theorem outside_field_rewritten:
  "rewrite_content home
     (''**Inherits:** [B](/src/B.md)'' @ NL # ''See [B](/src/B.md) for details.'' @ [NL]) =
   ''**Inherits:** [B](../../B.md)'' @ NL # ''See [B](../../B.md) for details.'' @ [NL]"
  by code_simp

subsection \<open>C7: a document without the marker is still written\<close>

text \<open>
  Claim C7 says that for a document without the marker no write to the file occurs and
  no error is raised. Lines 37 and 38 write the file in every case. What holds for a
  readable file whose text has no marker: if it is writable, the text is written back
  as it was, and the file is then removed if its name meets the deletion rule (a
  removal that the directory does not allow raises); if it is not writable, the write
  raises and nothing has changed.
\<close>

theorem no_marker_still_written:
  assumes "\<not> sublist marker (content f)" and "files w p = Some f" and "readable f"
  shows "(writable f \<longrightarrow>
            fst (process_md_file cwd p w) =
              (if deletion_rule p \<and> \<not> unlinkable f then Raised PermissionError else Returned)
          \<and> log (snd (process_md_file cwd p w)) =
              log w @ Wrote p (content f)
                # (if deletion_rule p \<and> unlinkable f then [Removed p] else [])
          \<and> files (snd (process_md_file cwd p w)) =
              (if deletion_rule p \<and> unlinkable f then (files w)(p := None) else files w))
       \<and> (\<not> writable f \<longrightarrow> process_md_file cwd p w = (Raised PermissionError, w))"
  using assms rewrite_content_no_marker [OF assms(1), of cwd]
  by (auto simp: process_md_file_def read_file_def write_file_def os_remove_def Let_def
      deletion_rule_def fun_upd_idem)

theorem no_marker_still_written_witness:
  "fst (process_md_file home ''docs/SUMMARY.md'' docs_world) = Returned
   \<and> log (snd (process_md_file home ''docs/SUMMARY.md'' docs_world)) =
       [Wrote ''docs/SUMMARY.md'' ''# Summary'', Removed ''docs/SUMMARY.md'']
   \<and> files (snd (process_md_file home ''docs/SUMMARY.md'' docs_world)) =
       (files docs_world)(''docs/SUMMARY.md'' := None)
   \<and> fst (process_md_file home ''docs/b/README.md'' docs_world) = Raised PermissionError
   \<and> log (snd (process_md_file home ''docs/b/README.md'' docs_world)) =
       [Wrote ''docs/b/README.md'' ''# Readme'']
   \<and> process_md_file home ''docs/a/locked.md'' docs_world = (Raised PermissionError, docs_world)"
proof -
  have s: "\<not> sublist marker (content summary_file)" and l: "\<not> sublist marker (content locked_file)"
    and r: "\<not> sublist marker (content pinned_file)" by code_simp+
  have fs: "files docs_world ''docs/SUMMARY.md'' = Some summary_file"
    and fl: "files docs_world ''docs/a/locked.md'' = Some locked_file"
    and fr: "files docs_world ''docs/b/README.md'' = Some pinned_file" by code_simp+
  have d: "deletion_rule ''docs/SUMMARY.md''" and d3: "deletion_rule ''docs/b/README.md''"
    by code_simp+
  have lg: "log docs_world = []" by (simp add: docs_world_def)
  show ?thesis
    using no_marker_still_written [OF s fs, of home] no_marker_still_written [OF l fl, of home]
      no_marker_still_written [OF r fr, of home] d d3 lg
    by (simp add: summary_file_def locked_file_def pinned_file_def)
qed

text \<open>
  Two files without the marker: processing the first one writes it, and processing the
  second one, which is not writable, raises \<^verbatim>\<open>PermissionError\<close>.
\<close>

theorem unchanged_file_written_counterexample:
  "\<not> sublist marker (content notes_file)
   \<and> log (snd (process_md_file home ''docs/a/notes.md'' docs_world)) =
       [Wrote ''docs/a/notes.md'' ''# Notes'']
   \<and> \<not> sublist marker (content locked_file)
   \<and> fst (process_md_file home ''docs/a/locked.md'' docs_world) = Raised PermissionError"
  by code_simp

subsection \<open>C8: the first failure ends the batch\<close>

text \<open>
  Claim C8: no error is caught; when processing a file fails, in reading or in writing,
  the error ends the batch run at once, the files processed so far stay changed and
  the remaining ones are untouched. Let the loops hand the paths \<open>before\<close>, then
  \<open>p\<close>, then \<open>rest\<close> to \<^verbatim>\<open>process_md_file\<close>, each path once, let every file of
  \<open>before\<close> be readable and writable (and removable where the deletion rule asks for
  it), and let reading \<open>p\<close>, or writing it, raise \<open>e\<close>. Then the run raises \<open>e\<close>.
  In the file system it leaves, every file of \<open>before\<close> is rewritten or removed as
  processing does, every other file, \<open>p\<close> and those of \<open>rest\<close> included, is as
  it was, and the log holds the writes and removals for \<open>before\<close> and nothing more.
\<close>

theorem failure_aborts_batch:
  assumes "md_paths walk = before @ p # rest"
    and "distinct (before @ [p])"
    and "\<forall>q\<in>set before. \<exists>f. files w q = Some f \<and> readable f \<and> writable f
           \<and> (deletion_rule q \<longrightarrow> unlinkable f)"
    and "read_file p w = Inl e
         \<or> (\<exists>t. read_file p w = Inr t \<and> write_file p (rewrite_content cwd t) w = Inl e)"
  shows "fst (process_all_md_files cwd walk w) = Raised e
       \<and> files (snd (process_all_md_files cwd walk w)) =
           (\<lambda>q. if q \<in> set before then processed cwd q (files w q) else files w q)
       \<and> log (snd (process_all_md_files cwd walk w)) =
           log w @ concat (map (events_of cwd w) before)"
proof -
  have d: "distinct before" and pb: "p \<notin> set before" using assms(2) by auto
  from for_each_processed [OF d assms(3), of cwd] obtain w1 where
      r: "for_each (process_md_file cwd) before w = (Returned, w1)"
      and f1: "files w1 = (\<lambda>q. if q \<in> set before then processed cwd q (files w q) else files w q)"
      and l1: "log w1 = log w @ concat (map (events_of cwd w) before)" by blast
  have same: "files w1 p = files w p" using f1 pb by simp
  have "process_md_file cwd p w1 = (Raised e, w1)"
    using assms(4)
  proof
    assume "read_file p w = Inl e"
    then have "read_file p w1 = Inl e" using read_file_cong [OF same] by simp
    then show ?thesis by (rule process_md_file_read_fails)
  next
    assume "\<exists>t. read_file p w = Inr t \<and> write_file p (rewrite_content cwd t) w = Inl e"
    then obtain t where t: "read_file p w = Inr t"
      and wf: "write_file p (rewrite_content cwd t) w = Inl e" by blast
    have "read_file p w1 = Inr t" using t read_file_cong [OF same] by simp
    moreover have "write_file p (rewrite_content cwd t) w1 = Inl e"
      using same wf by (rule write_file_fails_cong)
    ultimately show ?thesis by (rule process_md_file_write_fails)
  qed
  then have "for_each (process_md_file cwd) (before @ p # rest) w = (Raised e, w1)"
    using r by (simp add: for_each_append)
  then have "process_all_md_files cwd walk w = (Raised e, w1)"
    using assms(1) by (simp add: process_all_md_files_paths)
  then show ?thesis using f1 l1 by simp
qed

theorem failure_aborts_batch_witness:
  "fst (process_all_md_files home docs_walk docs_world) = Raised PermissionError
   \<and> files (snd (process_all_md_files home docs_walk docs_world)) ''docs/SUMMARY.md'' = None
   \<and> files (snd (process_all_md_files home docs_walk docs_world)) ''docs/a/child.md'' =
       Some (child_file\<lparr>content := ''**Inherits:** [B](../../B.md)'' @ [NL]\<rparr>)
   \<and> files (snd (process_all_md_files home docs_walk docs_world)) ''docs/a/locked.md'' =
       Some locked_file
   \<and> files (snd (process_all_md_files home docs_walk docs_world)) ''docs/a/zeta.md'' =
       Some notes_file
   \<and> log (snd (process_all_md_files home docs_walk docs_world)) =
       [Wrote ''docs/SUMMARY.md'' ''# Summary'', Removed ''docs/SUMMARY.md'',
        Wrote ''docs/a/child.md'' (''**Inherits:** [B](../../B.md)'' @ [NL]),
        Wrote ''docs/a/notes.md'' ''# Notes'']
   \<and> fst (process_all_md_files home stale_walk docs_world) = Raised FileNotFoundError
   \<and> files (snd (process_all_md_files home stale_walk docs_world)) = files docs_world
   \<and> log (snd (process_all_md_files home stale_walk docs_world)) = []"
proof -
  let ?before = "[''docs/SUMMARY.md'', ''docs/a/child.md'', ''docs/a/notes.md'']"
  have m: "md_paths docs_walk = ?before @ ''docs/a/locked.md'' # [''docs/a/zeta.md'']"
    by code_simp
  have d: "distinct (?before @ [''docs/a/locked.md''])" by simp
  have ok: "\<forall>q\<in>set ?before. \<exists>f. files docs_world q = Some f \<and> readable f \<and> writable f
           \<and> (deletion_rule q \<longrightarrow> unlinkable f)"
    by (simp add: docs_world_def summary_file_def child_file_def notes_file_def)
  have "read_file ''docs/a/locked.md'' docs_world = Inr ''# Locked''" by code_simp
  moreover have "write_file ''docs/a/locked.md'' (rewrite_content home ''# Locked'') docs_world =
      Inl PermissionError"
    by (simp add: write_file_def docs_world_def locked_file_def)
  ultimately have fail: "read_file ''docs/a/locked.md'' docs_world = Inl PermissionError
         \<or> (\<exists>t. read_file ''docs/a/locked.md'' docs_world = Inr t
               \<and> write_file ''docs/a/locked.md'' (rewrite_content home t) docs_world =
                   Inl PermissionError)"
    by blast
  note T = failure_aborts_batch [OF m d ok fail]
  have s: "processed home ''docs/SUMMARY.md'' (files docs_world ''docs/SUMMARY.md'') = None"
    and c: "processed home ''docs/a/child.md'' (files docs_world ''docs/a/child.md'') =
       Some (child_file\<lparr>content := ''**Inherits:** [B](../../B.md)'' @ [NL]\<rparr>)"
    and l: "files docs_world ''docs/a/locked.md'' = Some locked_file"
    and z: "files docs_world ''docs/a/zeta.md'' = Some notes_file"
    and e: "log docs_world @ concat (map (events_of home docs_world) ?before) =
       [Wrote ''docs/SUMMARY.md'' ''# Summary'', Removed ''docs/SUMMARY.md'',
        Wrote ''docs/a/child.md'' (''**Inherits:** [B](../../B.md)'' @ [NL]),
        Wrote ''docs/a/notes.md'' ''# Notes'']"
    by code_simp+
  have m0: "md_paths stale_walk = [] @ ''docs/c/gone.md'' # []" by code_simp
  have "read_file ''docs/c/gone.md'' docs_world = Inl FileNotFoundError" by code_simp
  then have fail0: "read_file ''docs/c/gone.md'' docs_world = Inl FileNotFoundError
         \<or> (\<exists>t. read_file ''docs/c/gone.md'' docs_world = Inr t
               \<and> write_file ''docs/c/gone.md'' (rewrite_content home t) docs_world =
                   Inl FileNotFoundError)"
    by blast
  have lg: "log docs_world = []" by (simp add: docs_world_def)
  have S: "fst (process_all_md_files home stale_walk docs_world) = Raised FileNotFoundError
     \<and> files (snd (process_all_md_files home stale_walk docs_world)) = files docs_world
     \<and> log (snd (process_all_md_files home stale_walk docs_world)) = []"
    using failure_aborts_batch [OF m0 _ _ fail0] lg by simp
  show ?thesis using T s c l z e S by simp
qed

subsection \<open>C9: empty parentheses\<close>

text \<open>
  Claim C9: a pair of empty parentheses is not taken as a reference and is left as it
  is, since the scanner wants at least one character between the parentheses. The
  pattern does not match at \<^verbatim>\<open>()\<close>, every match has a character between its
  parentheses, and where the pair does not stand behind an opening parenthesis that
  is still open, the text before it and the text behind it are rewritten on their
  own and the pair is copied.
\<close>

theorem empty_parentheses_kept:
  "ref_at (''()'' @ rest) = None
   \<and> (\<forall>s inner r. ref_at s = Some (inner, r) \<longrightarrow> inner \<noteq> [])
   \<and> (no_open_paren pre \<longrightarrow>
        replace_paths_with_empty_brackets cwd (pre @ ''()'' @ rest) =
          replace_paths_with_empty_brackets cwd pre @ ''()''
            @ replace_paths_with_empty_brackets cwd rest)"
proof (intro conjI allI impI)
  show "ref_at (''()'' @ rest) = None" by (simp add: ref_at_empty_pair)
next
  fix s inner r
  assume "ref_at s = Some (inner, r)"
  then show "inner \<noteq> []" by (simp add: ref_at_Some_iff)
next
  let ?R = "replace_path cwd"
  assume "no_open_paren pre"
  then have "re_sub_refs ?R (pre @ ''()'' @ rest) = re_sub_refs ?R pre @ re_sub_refs ?R (''()'' @ rest)"
    by (rule re_sub_refs_append)
  moreover have "re_sub_refs ?R (''()'' @ rest) = ''()'' @ re_sub_refs ?R rest"
    by (simp add: ref_at_empty_pair ref_at_not_paren)
  ultimately show "replace_paths_with_empty_brackets cwd (pre @ ''()'' @ rest) =
          replace_paths_with_empty_brackets cwd pre @ ''()''
            @ replace_paths_with_empty_brackets cwd rest"
    by (simp add: replace_paths_with_empty_brackets_def)
qed

theorem empty_parentheses_kept_witness:
  "ref_at (''()'' @ '' [B](/src/B.md)'') = None
   \<and> ref_at ''(x) y'' = Some (''x'', '' y'') \<and> ''x'' \<noteq> []
   \<and> replace_paths_with_empty_brackets home (''[A](/src/A.md) '' @ ''()'' @ '' [B](/src/B.md)'') =
       replace_paths_with_empty_brackets home ''[A](/src/A.md) '' @ ''()''
         @ replace_paths_with_empty_brackets home '' [B](/src/B.md)''
   \<and> replace_paths_with_empty_brackets home (''[A](/src/A.md) '' @ ''()'' @ '' [B](/src/B.md)'') =
       ''[A](../../A.md) () [B](../../B.md)''"
proof -
  have n: "no_open_paren ''[A](/src/A.md) ''" by code_simp
  have r: "ref_at ''(x) y'' = Some (''x'', '' y'')" by code_simp
  have v: "replace_paths_with_empty_brackets home (''[A](/src/A.md) '' @ ''()'' @ '' [B](/src/B.md)'') =
       ''[A](../../A.md) () [B](../../B.md)''" by code_simp
  show ?thesis
    using empty_parentheses_kept [of "'' [B](/src/B.md)''" "''[A](/src/A.md) ''" home] n r v
    by simp
qed

subsection \<open>C10: an empty field value\<close>

text \<open>
  Claim C10: when the marker is found and the captured value is empty after stripping,
  the text is returned unchanged, the empty value is not used as the text to search
  for. This is the case when the marker is followed by whitespace and a line break
  and there is no line break further on.
\<close>

theorem blank_field_unchanged:
  "(parse_inherits md = Some [] \<longrightarrow> rewrite_content cwd md = md)
   \<and> (CHR ''*'' \<notin> set pre \<and> list_all isspace ws \<and> NL \<notin> set tail \<longrightarrow>
        parse_inherits (pre @ marker @ ws @ NL # tail) = Some []
      \<and> rewrite_content cwd (pre @ marker @ ws @ NL # tail) = pre @ marker @ ws @ NL # tail)"
  by (simp add: rewrite_content_def parse_inherits_blank)

theorem blank_field_unchanged_witness:
  "parse_inherits (''# T'' @ [NL] @ marker @ '' '' @ NL # ''(/a) end'') = Some []
   \<and> rewrite_content home (''# T'' @ [NL] @ marker @ '' '' @ NL # ''(/a) end'') =
       ''# T'' @ [NL] @ marker @ '' '' @ NL # ''(/a) end''"
proof -
  have a: "CHR ''*'' \<notin> set (''# T'' @ [NL])" by (simp add: NL_def)
  have b: "list_all isspace '' ''" by code_simp
  have c: "NL \<notin> set ''(/a) end''" by (simp add: NL_def)
  show ?thesis
    using blank_field_unchanged [of _ home "''# T'' @ [NL]" "'' ''" "''(/a) end''"] a b c
    by simp
qed

end
